theory Spec2Isabelle
  imports Main "HOL-Library.Word"
begin

unbundle bit_operations_syntax

section \<open>Data model\<close>

text \<open>
  The Go source works on \<open>net.IP\<close>, a byte slice, and returns \<open>[]*net.IPNet\<close> together
  with an \<open>error\<close>. A byte is an \<open>8 word\<close>; a slice is a list, and where the source tests a
  slice against \<open>nil\<close> the slice is an \<open>option\<close> with \<open>None\<close> for \<open>nil\<close>. The three
  \<open>fmt.Errorf\<close> values of \<open>Range2CIDRs\<close> are named after the kinds the specification gives
  them. \<open>big.Int\<close> is \<open>int\<close>.
\<close>

type_synonym byte = "8 word"

record ipnet =
  IP :: "byte list"
  Mask :: "byte list option"

datatype error = InvalidInput | FamilyMismatch | InvertedRange

section \<open>The Go standard library functions the source calls\<close>

text \<open>\<open>net.IP.To4\<close>: a 4-byte slice is returned as it is, a 16-byte IPv4-mapped address
  (ten zero bytes, then \<open>ff ff\<close>) gives its last four bytes, anything else \<open>nil\<close>.\<close>

definition isZeros :: "byte list \<Rightarrow> bool" where
  "isZeros p = list_all (\<lambda>b. b = 0) p"

definition To4 :: "byte list \<Rightarrow> byte list option" where
  "To4 ip =
     (if length ip = 4 then Some ip
      else if length ip = 16 \<and> isZeros (take 10 ip) \<and> ip ! 10 = 0xff \<and> ip ! 11 = 0xff
           then Some (drop 12 ip)
      else None)"

definition v4InV6Prefix :: "byte list" where
  "v4InV6Prefix = [0, 0, 0, 0, 0, 0, 0, 0, 0, 0, 0xff, 0xff]"

text \<open>\<open>net.IP.To16\<close>: a 4-byte slice becomes the IPv4-mapped 16-byte address, a 16-byte
  slice is returned as it is, anything else gives \<open>nil\<close>.\<close>

definition To16 :: "byte list \<Rightarrow> byte list option" where
  "To16 ip =
     (if length ip = 4 then Some (v4InV6Prefix @ ip)
      else if length ip = 16 then Some ip
      else None)"

text \<open>\<open>big.Int.SetBytes\<close>: the big-endian unsigned value of a byte slice.\<close>

definition SetBytes :: "byte list \<Rightarrow> int" where
  "SetBytes buf = foldl (\<lambda>acc b. acc * 256 + uint b) 0 buf"

text \<open>\<open>big.Int.FillBytes\<close>: the absolute value as a zero-extended big-endian slice of the
  buffer's length; it panics (\<open>None\<close>) when the value does not fit.\<close>

fun be_bytes :: "nat \<Rightarrow> int \<Rightarrow> byte list" where
  "be_bytes 0 v = []"
| "be_bytes (Suc n) v = be_bytes n (v div 256) @ [word_of_int (v mod 256)]"

definition FillBytes :: "int \<Rightarrow> nat \<Rightarrow> byte list option" where
  "FillBytes x n = (if \<bar>x\<bar> < 256 ^ n then Some (be_bytes n \<bar>x\<bar>) else None)"

text \<open>\<open>net.CIDRMask(ones, bits)\<close>: \<open>nil\<close> unless \<open>bits\<close> is 32 or 128 and
  \<open>0 \<le> ones \<le> bits\<close>; otherwise \<open>bits / 8\<close> bytes whose first \<open>ones\<close> bits are set.\<close>

fun mask_bytes :: "nat \<Rightarrow> nat \<Rightarrow> byte list" where
  "mask_bytes 0 n = []"
| "mask_bytes (Suc l) n =
     (if n \<ge> 8 then 0xff # mask_bytes l (n - 8)
      else NOT (drop_bit n (0xff :: byte)) # mask_bytes l 0)"

definition CIDRMask :: "int \<Rightarrow> int \<Rightarrow> byte list option" where
  "CIDRMask ones bits =
     (if bits \<noteq> 32 \<and> bits \<noteq> 128 then None
      else if ones < 0 \<or> ones > bits then None
      else Some (mask_bytes (nat (bits div 8)) (nat ones)))"

section \<open>The source: \<open>standardizeIP\<close> and \<open>Range2CIDRs\<close>\<close>

definition standardizeIP :: "byte list \<Rightarrow> byte list option" where
  "standardizeIP ip = (case To4 ip of Some v4 \<Rightarrow> Some v4 | None \<Rightarrow> To16 ip)"

text \<open>\<open>len\<close> and the bytes of a possibly-\<open>nil\<close> slice: a \<open>nil\<close> slice has length 0 and
  \<open>SetBytes(nil)\<close> is 0.\<close>

definition slice_bytes :: "byte list option \<Rightarrow> byte list" where
  "slice_bytes s = (case s of None \<Rightarrow> [] | Some bs \<Rightarrow> bs)"

text \<open>The first inner loop (lines 42-49): \<open>i\<close> runs upwards from 0 while \<open>i < maxLen\<close>,
  leaves at the first \<open>i\<close> with \<open>1 << i > diff\<close>, and otherwise records \<open>maxSize = i\<close>.\<close>

function find_max_size :: "nat \<Rightarrow> nat \<Rightarrow> int \<Rightarrow> nat \<Rightarrow> nat" where
  "find_max_size i maxLen diff maxSize =
     (if i < maxLen
      then (if push_bit i (1::int) > diff then maxSize
            else find_max_size (Suc i) maxLen diff i)
      else maxSize)"
  by pat_completeness auto
termination
  by (relation "measure (\<lambda>(i, maxLen, diff, maxSize). maxLen - i)") auto

declare find_max_size.simps [simp del]

text \<open>The test of the second inner loop's body (lines 53-60) for one \<open>i\<close>.\<close>

definition fits :: "int \<Rightarrow> int \<Rightarrow> nat \<Rightarrow> bool" where
  "fits startInt endInt i =
     (let mask = push_bit i (1::int) - 1;
          networkStart = startInt AND NOT mask
      in networkStart = startInt \<and> (startInt OR mask) \<le> endInt)"

text \<open>The second inner loop (lines 52-65): \<open>i\<close> runs downwards from \<open>maxSize\<close> to 0 and
  the first \<open>i\<close> that passes the test is taken; when none passes, \<open>maxSize\<close> keeps the
  value it had.\<close>

fun align_size :: "int \<Rightarrow> int \<Rightarrow> nat \<Rightarrow> nat \<Rightarrow> nat" where
  "align_size startInt endInt maxSize 0 =
     (if fits startInt endInt 0 then 0 else maxSize)"
| "align_size startInt endInt maxSize (Suc i) =
     (if fits startInt endInt (Suc i) then Suc i
      else align_size startInt endInt maxSize i)"

text \<open>Lines 37-65 of one iteration of the main loop: the exponent of the block emitted
  at \<open>startInt\<close>.\<close>

definition block_size :: "nat \<Rightarrow> int \<Rightarrow> int \<Rightarrow> nat" where
  "block_size maxLen startInt endInt =
     (let diff = endInt - startInt + 1;
          maxSize = find_max_size 0 maxLen diff 0
      in align_size startInt endInt maxSize maxSize)"

text \<open>The main loop (lines 36-81). \<open>n\<close> is \<open>len(startIP)\<close> after standardisation and
  \<open>maxLen = n * 8\<close>. \<open>None\<close> is the panic of \<open>FillBytes\<close>.\<close>

function cidr_loop :: "nat \<Rightarrow> int \<Rightarrow> int \<Rightarrow> ipnet list \<Rightarrow> ipnet list option" where
  "cidr_loop n startInt endInt cidrs =
     (if startInt \<le> endInt then
        (let maxLen = n * 8;
             maxSize = block_size maxLen startInt endInt;
             prefixLen = int maxLen - int maxSize
         in case FillBytes startInt n of
              None \<Rightarrow> None
            | Some ipBytes \<Rightarrow>
                cidr_loop n (startInt + push_bit maxSize 1) endInt
                  (cidrs @ [\<lparr>IP = ipBytes, Mask = CIDRMask prefixLen (int maxLen)\<rparr>]))
      else Some cidrs)"
  by pat_completeness auto
termination
  by (relation "measure (\<lambda>(n, startInt, endInt, cidrs). nat (endInt - startInt + 1))") auto

declare cidr_loop.simps [simp del]

text \<open>\<open>Range2CIDRs\<close> returns the pair (block list, error); the \<open>nil\<close> block list of the
  error returns is the empty list. The outer \<open>None\<close> is a panic.\<close>

definition Range2CIDRs ::
  "byte list option \<Rightarrow> byte list option \<Rightarrow> (ipnet list \<times> error option) option" where
  "Range2CIDRs startIP endIP =
     (case (startIP, endIP) of
        (Some s, Some e) \<Rightarrow>
          (let startIP' = slice_bytes (standardizeIP s);
               endIP' = slice_bytes (standardizeIP e)
           in if length startIP' \<noteq> length endIP' then Some ([], Some FamilyMismatch)
              else
                (let startInt = SetBytes startIP';
                     endInt = SetBytes endIP'
                 in if startInt > endInt then Some ([], Some InvertedRange)
                    else (case cidr_loop (length startIP') startInt endInt [] of
                            None \<Rightarrow> None
                          | Some cidrs \<Rightarrow> Some (cidrs, None))))
      | _ \<Rightarrow> Some ([], Some InvalidInput))"

section \<open>Reading the result as the specification's CIDR blocks\<close>

text \<open>The specification speaks of a block as a network address with a prefix length. For an
  \<open>ipnet\<close> of the result these are the big-endian value of \<open>IP\<close> and the number of leading
  one bits of \<open>Mask\<close> (what \<open>IPMask.Size\<close> reports; 0 for a \<open>nil\<close> mask); the width is the
  bit length of \<open>IP\<close>. The block stands for the addresses from its network address to its
  last address, the network address with the low \<open>width - prefixLength\<close> bits set.\<close>

definition leading_ones :: "byte \<Rightarrow> nat" where
  "leading_ones v = length (takeWhile (bit v) [7, 6, 5, 4, 3, 2, 1, 0])"

fun mask_ones :: "byte list \<Rightarrow> nat" where
  "mask_ones [] = 0"
| "mask_ones (v # rest) = (if v = 0xff then 8 + mask_ones rest else leading_ones v)"

definition width :: "ipnet \<Rightarrow> nat" where
  "width c = 8 * length (IP c)"

definition net_addr :: "ipnet \<Rightarrow> int" where
  "net_addr c = SetBytes (IP c)"

definition prefix_len :: "ipnet \<Rightarrow> nat" where
  "prefix_len c = (case Mask c of None \<Rightarrow> 0 | Some m \<Rightarrow> mask_ones m)"

definition host_bits :: "ipnet \<Rightarrow> nat" where
  "host_bits c = width c - prefix_len c"

definition last_addr :: "ipnet \<Rightarrow> int" where
  "last_addr c = net_addr c OR (2 ^ host_bits c - 1)"

definition block_addrs :: "ipnet \<Rightarrow> int set" where
  "block_addrs c = {net_addr c .. last_addr c}"

text \<open>The last address of a block as a byte slice of the block's own length, as a caller
  would pass it back to \<open>Range2CIDRs\<close>.\<close>

definition last_ip :: "ipnet \<Rightarrow> byte list" where
  "last_ip c = be_bytes (length (IP c)) (last_addr c)"

section \<open>The main loop on integers\<close>

text \<open>The sequence of (start, exponent) pairs the main loop goes through, without the
  conversion to bytes: the loop's result is the image of this list (lemma
  \<open>cidr_loop_blocks\<close> below).\<close>

function blocks :: "nat \<Rightarrow> int \<Rightarrow> int \<Rightarrow> (int \<times> nat) list" where
  "blocks maxLen s e =
     (if s \<le> e then (s, block_size maxLen s e) # blocks maxLen (s + 2 ^ block_size maxLen s e) e
      else [])"
  by pat_completeness auto
termination
  by (relation "measure (\<lambda>(maxLen, s, e). nat (e - s + 1))") auto

declare blocks.simps [simp del]

definition mk_net :: "nat \<Rightarrow> int \<times> nat \<Rightarrow> ipnet" where
  "mk_net n b = \<lparr>IP = be_bytes n (fst b),
                 Mask = CIDRMask (int (n * 8) - int (snd b)) (int (n * 8))\<rparr>"

section \<open>Bit operations and the two inner loops\<close>

lemma mask_pow: "push_bit i (1::int) - 1 = mask i"
  by (simp add: mask_eq_exp_minus_1)

lemma aligned_iff: "(s AND NOT (mask i) = s) \<longleftrightarrow> (2::int) ^ i dvd s"
proof -
  have "(s AND NOT (mask i) = s) \<longleftrightarrow> take_bit i s = 0"
    by (auto simp add: bit_eq_iff bit_simps)
  then show ?thesis by (simp add: take_bit_eq_0_iff)
qed

lemma or_mask_aligned: 
  assumes "(2::int) ^ i dvd s" shows "s OR mask i = s + 2 ^ i - 1"
proof -
  have "take_bit i s = 0" using assms by (simp add: take_bit_eq_0_iff)
  then have "s AND mask i = 0" by (simp add: take_bit_eq_mask)
  then have "s + mask i = s OR mask i" by (rule disjunctive_add_eq_or)
  then show ?thesis by (simp add: mask_eq_exp_minus_1)
qed

lemma fits_iff: "fits s e i \<longleftrightarrow> (2::int) ^ i dvd s \<and> s + 2 ^ i - 1 \<le> e"
  unfolding fits_def Let_def mask_pow
  using aligned_iff [of s i] or_mask_aligned [of i s] by auto

lemma fits_0: "s \<le> e \<Longrightarrow> fits s e 0"
  by (simp add: fits_iff)

lemma align_size_props:
  "s \<le> e \<Longrightarrow> align_size s e m i \<le> i \<and> fits s e (align_size s e m i) \<and>
     (\<forall>j. align_size s e m i < j \<and> j \<le> i \<longrightarrow> \<not> fits s e j)"
proof (induction i)
  case 0
  then show ?case by (auto simp add: fits_0)
next
  case (Suc i)
  then show ?case by (auto simp: le_Suc_eq)
qed

lemma pow_mono_lt: "(2::int) ^ j \<le> d \<Longrightarrow> d < 2 ^ i \<Longrightarrow> j < i"
  by (metis le_less_trans power_strict_increasing_iff one_less_numeral_iff semiring_norm(76))

lemma find_max_size_props:
  assumes "1 \<le> d" "ms = i - 1" "2 ^ ms \<le> d" 
  shows "2 ^ (find_max_size i L d ms) \<le> d \<and> (find_max_size i L d ms < L \<or> find_max_size i L d ms = ms) \<and>
     (\<forall>j<L. (2::int) ^ j \<le> d \<longrightarrow> j \<le> find_max_size i L d ms)"
  using assms
proof (induction i L d ms rule: find_max_size.induct)
  case (1 i maxLen diff maxSize)
  show ?case
  proof (cases "i < maxLen")
    case False
    then have r: "find_max_size i maxLen diff maxSize = maxSize"
      by (simp add: find_max_size.simps [of i])
    from False 1(3) have "\<forall>j<maxLen. j \<le> maxSize" by auto
    then show ?thesis using 1(4) r by simp
  next
    case True
    show ?thesis
    proof (cases "push_bit i (1::int) > diff")
      case big: True
      then have r: "find_max_size i maxLen diff maxSize = maxSize"
        using True by (simp add: find_max_size.simps [of i])
      have "\<forall>j. (2::int) ^ j \<le> diff \<longrightarrow> j \<le> maxSize"
      proof (intro allI impI)
        fix j assume "(2::int) ^ j \<le> diff"
        then have "j < i" using big pow_mono_lt [of j diff i] by simp
        then show "j \<le> maxSize" using 1(3) by simp
      qed
      then show ?thesis using 1(4) r by simp
    next
      case small: False
      then have r: "find_max_size i maxLen diff maxSize = find_max_size (Suc i) maxLen diff i"
        using True by (simp add: find_max_size.simps [of i])
      have le: "(2::int) ^ i \<le> diff" using small by simp
      have ih: "2 ^ find_max_size (Suc i) maxLen diff i \<le> diff \<and>
        (find_max_size (Suc i) maxLen diff i < maxLen \<or> find_max_size (Suc i) maxLen diff i = i) \<and>
        (\<forall>j<maxLen. 2 ^ j \<le> diff \<longrightarrow> j \<le> find_max_size (Suc i) maxLen diff i)"
        using 1(1) [OF True small 1(2) _ le] by simp
      then show ?thesis unfolding r using True by auto
    qed
  qed
qed

lemma block_size_props:
  assumes "s \<le> e"
  shows "2 ^ block_size L s e dvd s" 
    and "s + 2 ^ block_size L s e - 1 \<le> e"
    and "block_size L s e < L \<or> block_size L s e = 0"
    and "j < L \<Longrightarrow> 2 ^ j dvd s \<Longrightarrow> s + 2 ^ j - 1 \<le> e \<Longrightarrow> j \<le> block_size L s e"
proof -
  define d where "d = e - s + 1"
  define m where "m = find_max_size 0 L d 0"
  have d1: "1 \<le> d" using assms by (simp add: d_def)
  have fm: "2 ^ m \<le> d \<and> (m < L \<or> m = 0) \<and> (\<forall>j<L. (2::int) ^ j \<le> d \<longrightarrow> j \<le> m)"
    unfolding m_def using find_max_size_props [of d 0 0 L] d1 by simp
  have bs: "block_size L s e = align_size s e m m"
    by (simp add: block_size_def d_def m_def Let_def)
  note al = align_size_props [OF assms, of m m]
  show "2 ^ block_size L s e dvd s" using al by (simp add: bs fits_iff)
  show "s + 2 ^ block_size L s e - 1 \<le> e" using al by (simp add: bs fits_iff)
  show "block_size L s e < L \<or> block_size L s e = 0" using al fm unfolding bs by auto
  show "j \<le> block_size L s e" if "j < L" "2 ^ j dvd s" "s + 2 ^ j - 1 \<le> e"
  proof (rule ccontr)
    assume "\<not> j \<le> block_size L s e"
    then have lt: "align_size s e m m < j" by (simp add: bs)
    have "(2::int) ^ j \<le> d" using that(3) by (simp add: d_def)
    then have "j \<le> m" using fm that(1) by simp
    then have "\<not> fits s e j" using al lt by simp
    then show False using that by (simp add: fits_iff)
  qed
qed

section \<open>Byte slices and masks\<close>

lemma length_be_bytes: "length (be_bytes n v) = n"
  by (induction n arbitrary: v) auto

lemma SetBytes_snoc: "SetBytes (bs @ [b]) = SetBytes bs * 256 + uint b"
  by (simp add: SetBytes_def)

lemma SetBytes_bounds: "0 \<le> SetBytes bs \<and> SetBytes bs < 256 ^ length bs"
proof (induction bs rule: rev_induct)
  case Nil
  then show ?case by (simp add: SetBytes_def)
next
  case (snoc b bs)
  have "uint b < 256" using uint_bounded [of b] by simp
  moreover have "0 \<le> uint b" by simp
  ultimately show ?case using snoc by (simp add: SetBytes_snoc)
qed

lemma SetBytes_be_bytes: "0 \<le> v \<Longrightarrow> v < 256 ^ n \<Longrightarrow> SetBytes (be_bytes n v) = v"
proof (induction n arbitrary: v)
  case 0
  then show ?case by (simp add: SetBytes_def)
next
  case (Suc n)
  have "v div 256 < 256 ^ n" using Suc.prems by (simp add: div_less_iff_less_mult algebra_simps)
  moreover have "0 \<le> v div 256" using Suc.prems by simp
  ultimately have ih: "SetBytes (be_bytes n (v div 256)) = v div 256" by (rule Suc.IH[rotated])
  have "uint (word_of_int (v mod 256) :: byte) = v mod 256"
    by (simp add: uint_word_of_int take_bit_eq_mod)
  then show ?case by (simp add: SetBytes_snoc ih)
qed

lemma leading_ones_mask: "n < 8 \<Longrightarrow> leading_ones (NOT (drop_bit n (0xff :: byte))) = n"
proof -
  assume "n < 8"
  then consider "n = 0" | "n = 1" | "n = 2" | "n = 3" | "n = 4" | "n = 5" | "n = 6" | "n = 7"
    by linarith
  then show ?thesis
    by cases (simp_all add: leading_ones_def)
qed

lemma mask_byte_neq: "n < 8 \<Longrightarrow> NOT (drop_bit n (0xff :: byte)) \<noteq> 0xff"
proof -
  assume "n < 8"
  then consider "n = 0" | "n = 1" | "n = 2" | "n = 3" | "n = 4" | "n = 5" | "n = 6" | "n = 7"
    by linarith
  then show ?thesis
    by cases simp_all
qed

lemma mask_ones_mask_bytes: "n \<le> 8 * l \<Longrightarrow> mask_ones (mask_bytes l n) = n"
proof (induction l arbitrary: n)
  case 0
  then show ?case by simp
next
  case (Suc l)
  show ?case
  proof (cases "8 \<le> n")
    case True
    then show ?thesis using Suc.IH [of "n - 8"] Suc.prems by simp
  next
    case False
    then have "n < 8" by simp
    then show ?thesis by (simp add: leading_ones_mask mask_byte_neq)
  qed
qed

section \<open>The main loop and its list of blocks\<close>

lemma blocks_elem:
  "(a, k) \<in> set (blocks L s e) \<Longrightarrow>
     s \<le> a \<and> a \<le> e \<and> a + 2 ^ k - 1 \<le> e \<and> 2 ^ k dvd a \<and> (k < L \<or> k = 0) \<and> k = block_size L a e"
proof (induction L s e rule: blocks.induct)
  case (1 maxLen s e)
  show ?case
  proof (cases "s \<le> e")
    case False
    then show ?thesis using 1(2) by (simp add: blocks.simps [of maxLen s e])
  next
    case True
    define k0 where "k0 = block_size maxLen s e"
    have unf: "blocks maxLen s e = (s, k0) # blocks maxLen (s + 2 ^ k0) e"
      using True by (simp add: blocks.simps [of maxLen s e] k0_def)
    from 1(2) unf consider "(a, k) = (s, k0)" | "(a, k) \<in> set (blocks maxLen (s + 2 ^ k0) e)"
      by auto
    then show ?thesis
    proof cases
      case 1
      then show ?thesis
        using block_size_props(1-3) [OF True, of maxLen] True by (simp add: k0_def)
    next
      case 2
      have "s + 2 ^ k0 \<le> a \<and> a \<le> e \<and> a + 2 ^ k - 1 \<le> e \<and> 2 ^ k dvd a \<and> (k < maxLen \<or> k = 0) \<and> k = block_size maxLen a e"
        unfolding k0_def by (rule "1.IH" [OF True 2 [unfolded k0_def]])
      moreover have "(0::int) < 2 ^ k0" by simp
      ultimately have "s \<le> a" by linarith
      then show ?thesis using \<open>s + 2 ^ k0 \<le> a \<and> _\<close> by blast
    qed
  qed
qed

lemma blocks_union: "(\<Union>(a, k) \<in> set (blocks L s e). {a .. a + 2 ^ k - 1}) = {s .. e}"
proof (induction L s e rule: blocks.induct)
  case (1 maxLen s e)
  show ?case
  proof (cases "s \<le> e")
    case False
    then show ?thesis by (simp add: blocks.simps [of maxLen s e])
  next
    case True
    define k0 where "k0 = block_size maxLen s e"
    have unf: "blocks maxLen s e = (s, k0) # blocks maxLen (s + 2 ^ k0) e"
      using True by (simp add: blocks.simps [of maxLen s e] k0_def)
    have ih: "(\<Union>(a, k) \<in> set (blocks maxLen (s + 2 ^ k0) e). {a .. a + 2 ^ k - 1}) = {s + 2 ^ k0 .. e}"
      using "1.IH" [OF True] by (simp add: k0_def)
    have le: "s + 2 ^ k0 - 1 \<le> e" using block_size_props(2) [OF True, of maxLen] by (simp add: k0_def)
    have un: "{s .. s + p - 1} \<union> {s + p .. e} = {s .. e}" if "0 < p" "s + p - 1 \<le> e" for p :: int
      using that by auto
    have "{s .. s + 2 ^ k0 - 1} \<union> {s + 2 ^ k0 .. e} = {s .. e}"
      using le by (intro un) simp_all
    then show ?thesis unfolding unf using ih by simp
  qed
qed

lemma blocks_sorted: "sorted_wrt (\<lambda>x y. fst x + 2 ^ snd x \<le> fst y) (blocks L s e)"
proof (induction L s e rule: blocks.induct)
  case (1 maxLen s e)
  show ?case
  proof (cases "s \<le> e")
    case False
    then show ?thesis by (simp add: blocks.simps [of maxLen s e])
  next
    case True
    define k0 where "k0 = block_size maxLen s e"
    have unf: "blocks maxLen s e = (s, k0) # blocks maxLen (s + 2 ^ k0) e"
      using True by (simp add: blocks.simps [of maxLen s e] k0_def)
    have ih: "sorted_wrt (\<lambda>x y. fst x + 2 ^ snd x \<le> fst y) (blocks maxLen (s + 2 ^ k0) e)"
      using "1.IH" [OF True] by (simp add: k0_def)
    have "\<forall>y \<in> set (blocks maxLen (s + 2 ^ k0) e). s + 2 ^ k0 \<le> fst y"
      using blocks_elem [of _ _ maxLen "s + 2 ^ k0" e] by auto
    then show ?thesis unfolding unf using ih by simp
  qed
qed

lemma cidr_loop_blocks:
  "0 \<le> s \<Longrightarrow> e < 256 ^ n \<Longrightarrow>
     cidr_loop n s e acc = Some (acc @ map (mk_net n) (blocks (n * 8) s e))"
proof (induction n s e acc rule: cidr_loop.induct)
  case (1 n s e acc)
  show ?case
  proof (cases "s \<le> e")
    case False
    then show ?thesis
      by (simp add: cidr_loop.simps [of n s e acc] blocks.simps [of "n * 8" s e])
  next
    case True
    define k0 where "k0 = block_size (n * 8) s e"
    have fb: "FillBytes s n = Some (be_bytes n s)"
      using True 1(2,3) by (simp add: FillBytes_def)
    have unf: "blocks (n * 8) s e = (s, k0) # blocks (n * 8) (s + 2 ^ k0) e"
      using True by (simp add: blocks.simps [of "n * 8" s e] k0_def)
    have pos: "0 \<le> s + push_bit k0 1" using 1(2) by simp
    have ih: "cidr_loop n (s + push_bit k0 1) e
                (acc @ [\<lparr>IP = be_bytes n s, Mask = CIDRMask (int (n * 8) - int k0) (int (n * 8))\<rparr>]) =
              Some ((acc @ [\<lparr>IP = be_bytes n s, Mask = CIDRMask (int (n * 8) - int k0) (int (n * 8))\<rparr>]) @
                    map (mk_net n) (blocks (n * 8) (s + push_bit k0 1) e))"
      using "1.IH" [OF True refl refl refl fb pos [unfolded k0_def] 1(3)] by (simp add: k0_def)
    have "cidr_loop n s e acc = cidr_loop n (s + push_bit k0 1) e
                (acc @ [\<lparr>IP = be_bytes n s, Mask = CIDRMask (int (n * 8) - int k0) (int (n * 8))\<rparr>])"
      using True fb by (simp add: cidr_loop.simps [of n s e acc] Let_def k0_def)
    then show ?thesis unfolding unf using ih by (simp add: mk_net_def)
  qed
qed

section \<open>Blocks as records, and the result on a valid range\<close>

lemma To4_length: "To4 ip = Some v \<Longrightarrow> length v = 4"
  by (auto simp: To4_def split: if_splits)

lemma To16_length: "To16 ip = Some v \<Longrightarrow> length v = 16"
  by (auto simp: To16_def v4InV6Prefix_def split: if_splits)

lemma standardizeIP_length: "standardizeIP ip = Some v \<Longrightarrow> length v = 4 \<or> length v = 16"
  by (auto simp: standardizeIP_def split: option.splits dest: To4_length To16_length)

lemma CIDRMask_ones:
  assumes "n = 4 \<or> n = 16" "k \<le> n * 8"
  shows "CIDRMask (int (n * 8) - int k) (int (n * 8)) = Some (mask_bytes n (n * 8 - k))"
  using assms by (auto simp: CIDRMask_def nat_diff_distrib')

lemma mk_net_fields:
  assumes "n = 4 \<or> n = 16" "k \<le> n * 8" "0 \<le> a" "a < 256 ^ n"
  shows "IP (mk_net n (a, k)) = be_bytes n a"
    and "width (mk_net n (a, k)) = n * 8"
    and "net_addr (mk_net n (a, k)) = a"
    and "prefix_len (mk_net n (a, k)) = n * 8 - k"
    and "host_bits (mk_net n (a, k)) = k"
proof -
  show ip: "IP (mk_net n (a, k)) = be_bytes n a" by (simp add: mk_net_def)
  show w: "width (mk_net n (a, k)) = n * 8" by (simp add: width_def ip length_be_bytes)
  show "net_addr (mk_net n (a, k)) = a"
    using assms(3,4) by (simp add: net_addr_def ip SetBytes_be_bytes)
  have "Mask (mk_net n (a, k)) = Some (mask_bytes n (n * 8 - k))"
    using CIDRMask_ones [OF assms(1,2)] by (simp add: mk_net_def)
  then show pl: "prefix_len (mk_net n (a, k)) = n * 8 - k"
    by (simp add: prefix_len_def mask_ones_mask_bytes)
  show "host_bits (mk_net n (a, k)) = k"
    using assms(2) by (simp add: host_bits_def w pl)
qed

lemma mk_net_last:
  assumes "n = 4 \<or> n = 16" "k \<le> n * 8" "0 \<le> a" "a < 256 ^ n" "2 ^ k dvd a"
  shows "last_addr (mk_net n (a, k)) = a + 2 ^ k - 1"
    and "block_addrs (mk_net n (a, k)) = {a .. a + 2 ^ k - 1}"
proof -
  show l: "last_addr (mk_net n (a, k)) = a + 2 ^ k - 1"
    using or_mask_aligned [OF assms(5)]
    by (simp add: last_addr_def mk_net_fields [OF assms(1-4)] mask_eq_exp_minus_1)
  show "block_addrs (mk_net n (a, k)) = {a .. a + 2 ^ k - 1}"
    by (simp add: block_addrs_def l mk_net_fields [OF assms(1-4)])
qed

text \<open>What \<open>Range2CIDRs\<close> returns on a valid range: both addresses standardise, to the
  same length, and start is not above end.\<close>

lemma Range2CIDRs_valid:
  assumes "standardizeIP a = Some a'" "standardizeIP b = Some b'"
    and "length a' = length b'" "SetBytes a' \<le> SetBytes b'"
  shows "Range2CIDRs (Some a) (Some b) =
           Some (map (mk_net (length a')) (blocks (length a' * 8) (SetBytes a') (SetBytes b')), None)"
proof -
  have "SetBytes b' < 256 ^ length a'" using SetBytes_bounds [of b'] assms(3) by simp
  moreover have "0 \<le> SetBytes a'" using SetBytes_bounds [of a'] by simp
  ultimately have "cidr_loop (length a') (SetBytes a') (SetBytes b') [] =
      Some (map (mk_net (length a')) (blocks (length a' * 8) (SetBytes a') (SetBytes b')))"
    using cidr_loop_blocks [of "SetBytes a'" "SetBytes b'" "length a'" "[]"] by simp
  then show ?thesis
    using assms by (simp add: Range2CIDRs_def slice_bytes_def Let_def)
qed

text \<open>Every block of the list lies inside the range, is aligned and has an exponent below
  the width.\<close>

lemma blocks_elem_valid:
  assumes "(a, k) \<in> set (blocks (n * 8) s e)" "0 \<le> s" "e < 256 ^ n" "n = 4 \<or> n = 16"
  shows "0 \<le> a" "a < 256 ^ n" "k < n * 8" "2 ^ k dvd a" "s \<le> a" "a + 2 ^ k - 1 \<le> e"
    "k = block_size (n * 8) a e" "a \<le> e"
  using blocks_elem [OF assms(1)] assms(2-4) by auto

section \<open>Claims about valid ranges\<close>

lemma blocks_net_addr:
  assumes "0 \<le> s" "e < 256 ^ n" "n = 4 \<or> n = 16"
  shows "map net_addr (map (mk_net n) (blocks (n * 8) s e)) = map fst (blocks (n * 8) s e)"
proof -
  have "net_addr (mk_net n x) = fst x" if "x \<in> set (blocks (n * 8) s e)" for x
  proof -
    obtain a k where x: "x = (a, k)" by (cases x)
    note v = blocks_elem_valid [OF that [unfolded x] assms]
    show ?thesis unfolding x using mk_net_fields(3) [of n k a] v assms(3) by simp
  qed
  then show ?thesis by simp
qed

lemma blocks_block_addrs:
  assumes "x \<in> set (blocks (n * 8) s e)" "0 \<le> s" "e < 256 ^ n" "n = 4 \<or> n = 16"
  shows "block_addrs (mk_net n x) = {fst x .. fst x + 2 ^ snd x - 1}"
proof -
  obtain a k where x: "x = (a, k)" by (cases x)
  note v = blocks_elem_valid [OF assms(1) [unfolded x] assms(2-4)]
  show ?thesis unfolding x using mk_net_last(2) [of n k a] v assms(4) by simp
qed

text \<open>C2 (coverage). For every valid range - both addresses standardise to the same width
  and start is not above end - \<open>Range2CIDRs\<close> returns a block list without an error; the
  union of the blocks' address sets is exactly the set of addresses from start to end, and
  no two blocks of the list share an address.\<close>

theorem C2_coverage:
  assumes "standardizeIP a = Some a'" "standardizeIP b = Some b'"
    and "length a' = length b'" "SetBytes a' \<le> SetBytes b'"
  shows "\<exists>cidrs. Range2CIDRs (Some a) (Some b) = Some (cidrs, None) \<and>
           (\<Union>c \<in> set cidrs. block_addrs c) = {SetBytes a' .. SetBytes b'} \<and>
           (\<forall>i j. i < j \<and> j < length cidrs \<longrightarrow>
              block_addrs (cidrs ! i) \<inter> block_addrs (cidrs ! j) = {})"
proof -
  define n where "n = length a'"
  define s where "s = SetBytes a'"
  define e where "e = SetBytes b'"
  define bl where "bl = blocks (n * 8) s e"
  have n: "n = 4 \<or> n = 16" using standardizeIP_length [OF assms(1)] by (simp add: n_def)
  have s0: "0 \<le> s" using SetBytes_bounds [of a'] by (simp add: s_def)
  have e1: "e < 256 ^ n" using SetBytes_bounds [of b'] assms(3) by (simp add: e_def n_def)
  have res: "Range2CIDRs (Some a) (Some b) = Some (map (mk_net n) bl, None)"
    using Range2CIDRs_valid [OF assms] by (simp add: n_def s_def e_def bl_def)
  have ba: "block_addrs (mk_net n x) = {fst x .. fst x + 2 ^ snd x - 1}" if "x \<in> set bl" for x
    using blocks_block_addrs [OF that [unfolded bl_def] s0 e1 n] .
  have "(\<Union>c \<in> set (map (mk_net n) bl). block_addrs c) = (\<Union>x \<in> set bl. {fst x .. fst x + 2 ^ snd x - 1})"
    using ba by simp
  also have "\<dots> = (\<Union>(a, k) \<in> set bl. {a .. a + 2 ^ k - 1})"
    by (simp add: case_prod_beta)
  also have "\<dots> = {s .. e}" unfolding bl_def by (rule blocks_union)
  finally have cover: "(\<Union>c \<in> set (map (mk_net n) bl). block_addrs c) = {s .. e}" .
  have disj: "block_addrs (map (mk_net n) bl ! i) \<inter> block_addrs (map (mk_net n) bl ! j) = {}"
    if "i < j" "j < length (map (mk_net n) bl)" for i j
  proof -
    have lj: "j < length bl" and li: "i < length bl" using that by simp_all
    have "fst (bl ! i) + 2 ^ snd (bl ! i) \<le> fst (bl ! j)"
      using blocks_sorted [of "n * 8" s e] that(1) lj
      unfolding bl_def [symmetric] by (simp add: sorted_wrt_iff_nth_less)
    then have "{fst (bl ! i) .. fst (bl ! i) + 2 ^ snd (bl ! i) - 1} \<inter>
               {fst (bl ! j) .. fst (bl ! j) + 2 ^ snd (bl ! j) - 1} = {}"
      by auto
    then show ?thesis using ba [of "bl ! i"] ba [of "bl ! j"] li lj by simp
  qed
  show ?thesis unfolding res using cover disj by (simp add: s_def e_def)
qed

theorem C2_coverage_witness:
  "\<exists>cidrs. Range2CIDRs (Some [192, 168, 1, 0]) (Some [192, 168, 2, 255]) = Some (cidrs, None) \<and>
           (\<Union>c \<in> set cidrs. block_addrs c) =
             {SetBytes [192, 168, 1, 0] .. SetBytes [192, 168, 2, 255]} \<and>
           (\<forall>i j. i < j \<and> j < length cidrs \<longrightarrow>
              block_addrs (cidrs ! i) \<inter> block_addrs (cidrs ! j) = {})"
proof -
  have h1: "standardizeIP [192, 168, 1, 0] = Some [192, 168, 1, 0]" by code_simp
  have h2: "standardizeIP [192, 168, 2, 255] = Some [192, 168, 2, 255]" by code_simp
  have h3: "length [192, 168, 1, 0 :: byte] = length [192, 168, 2, 255 :: byte]" by simp
  have h4: "SetBytes [192, 168, 1, 0] \<le> SetBytes [192, 168, 2, 255]" by code_simp
  show ?thesis by (rule C2_coverage [OF h1 h2 h3 h4])
qed

text \<open>C4 (ordering). For every valid range the returned blocks are strictly ascending by
  network address.\<close>

theorem C4_ascending:
  assumes "standardizeIP a = Some a'" "standardizeIP b = Some b'"
    and "length a' = length b'" "SetBytes a' \<le> SetBytes b'"
  shows "\<exists>cidrs. Range2CIDRs (Some a) (Some b) = Some (cidrs, None) \<and>
           sorted_wrt (<) (map net_addr cidrs)"
proof -
  define n where "n = length a'"
  define s where "s = SetBytes a'"
  define e where "e = SetBytes b'"
  define bl where "bl = blocks (n * 8) s e"
  have n: "n = 4 \<or> n = 16" using standardizeIP_length [OF assms(1)] by (simp add: n_def)
  have s0: "0 \<le> s" using SetBytes_bounds [of a'] by (simp add: s_def)
  have e1: "e < 256 ^ n" using SetBytes_bounds [of b'] assms(3) by (simp add: e_def n_def)
  have res: "Range2CIDRs (Some a) (Some b) = Some (map (mk_net n) bl, None)"
    using Range2CIDRs_valid [OF assms] by (simp add: n_def s_def e_def bl_def)
  have na: "map net_addr (map (mk_net n) bl) = map fst bl"
    unfolding bl_def by (rule blocks_net_addr [OF s0 e1 n])
  have lt: "fst x < fst y" if "fst x + 2 ^ snd x \<le> fst y" for x y :: "int \<times> nat"
  proof -
    have "(0::int) < 2 ^ snd x" by simp
    then show ?thesis using that by linarith
  qed
  have "sorted_wrt (\<lambda>x y. fst x < fst y) bl"
    using blocks_sorted [of "n * 8" s e] lt unfolding bl_def [symmetric]
    by (rule sorted_wrt_mono_rel [rotated]) 
  then have "sorted_wrt (<) (map fst bl)" by (simp add: sorted_wrt_map)
  then have "sorted_wrt (<) (map net_addr (map (mk_net n) bl))" by (simp only: na)
  then show ?thesis unfolding res by blast
qed

theorem C4_ascending_witness:
  "\<exists>cidrs. Range2CIDRs (Some [192, 168, 1, 0]) (Some [192, 168, 2, 255]) = Some (cidrs, None) \<and>
           sorted_wrt (<) (map net_addr cidrs)"
proof -
  have h1: "standardizeIP [192, 168, 1, 0] = Some [192, 168, 1, 0]" by code_simp
  have h2: "standardizeIP [192, 168, 2, 255] = Some [192, 168, 2, 255]" by code_simp
  have h3: "length [192, 168, 1, 0 :: byte] = length [192, 168, 2, 255 :: byte]" by simp
  have h4: "SetBytes [192, 168, 1, 0] \<le> SetBytes [192, 168, 2, 255]" by code_simp
  show ?thesis by (rule C4_ascending [OF h1 h2 h3 h4])
qed

text \<open>C5 (alignment). For every valid range, every returned block has a prefix length
  between 0 and its width, its network address is a multiple of its block size
  \<open>2 ^ (width - prefixLength)\<close>, and the low \<open>width - prefixLength\<close> bits of the network
  address are zero.\<close>

theorem C5_alignment:
  assumes "standardizeIP a = Some a'" "standardizeIP b = Some b'"
    and "length a' = length b'" "SetBytes a' \<le> SetBytes b'"
  shows "\<exists>cidrs. Range2CIDRs (Some a) (Some b) = Some (cidrs, None) \<and>
           (\<forall>c \<in> set cidrs.
              prefix_len c \<le> width c \<and>
              net_addr c mod 2 ^ (width c - prefix_len c) = 0 \<and>
              take_bit (width c - prefix_len c) (net_addr c) = 0)"
proof -
  define n where "n = length a'"
  define s where "s = SetBytes a'"
  define e where "e = SetBytes b'"
  define bl where "bl = blocks (n * 8) s e"
  have n: "n = 4 \<or> n = 16" using standardizeIP_length [OF assms(1)] by (simp add: n_def)
  have s0: "0 \<le> s" using SetBytes_bounds [of a'] by (simp add: s_def)
  have e1: "e < 256 ^ n" using SetBytes_bounds [of b'] assms(3) by (simp add: e_def n_def)
  have res: "Range2CIDRs (Some a) (Some b) = Some (map (mk_net n) bl, None)"
    using Range2CIDRs_valid [OF assms] by (simp add: n_def s_def e_def bl_def)
  have one: "prefix_len (mk_net n x) \<le> width (mk_net n x) \<and>
             net_addr (mk_net n x) mod 2 ^ (width (mk_net n x) - prefix_len (mk_net n x)) = 0 \<and>
             take_bit (width (mk_net n x) - prefix_len (mk_net n x)) (net_addr (mk_net n x)) = 0"
    if "x \<in> set bl" for x
  proof -
    obtain p k where x: "x = (p, k)" by (cases x)
    note v = blocks_elem_valid [OF that [unfolded x bl_def] s0 e1 n]
    have k: "k \<le> n * 8" using v(3) by simp
    note f = mk_net_fields [OF n k v(1) v(2)]
    have hb: "width (mk_net n (p, k)) - prefix_len (mk_net n (p, k)) = k"
      using f(5) by (simp add: host_bits_def)
    have "p mod 2 ^ k = 0" using v(4) by (simp add: mod_eq_0_iff_dvd)
    moreover have "take_bit k p = 0" using v(4) by (simp add: take_bit_eq_0_iff)
    ultimately show ?thesis unfolding x hb using f(2,3,4) by simp
  qed
  show ?thesis unfolding res using one by simp
qed

theorem C5_alignment_witness:
  "\<exists>cidrs. Range2CIDRs (Some [192, 168, 1, 0]) (Some [192, 168, 2, 255]) = Some (cidrs, None) \<and>
           (\<forall>c \<in> set cidrs.
              prefix_len c \<le> width c \<and>
              net_addr c mod 2 ^ (width c - prefix_len c) = 0 \<and>
              take_bit (width c - prefix_len c) (net_addr c) = 0)"
proof -
  have h1: "standardizeIP [192, 168, 1, 0] = Some [192, 168, 1, 0]" by code_simp
  have h2: "standardizeIP [192, 168, 2, 255] = Some [192, 168, 2, 255]" by code_simp
  have h3: "length [192, 168, 1, 0 :: byte] = length [192, 168, 2, 255 :: byte]" by simp
  have h4: "SetBytes [192, 168, 1, 0] \<le> SetBytes [192, 168, 2, 255]" by code_simp
  show ?thesis by (rule C5_alignment [OF h1 h2 h3 h4])
qed

text \<open>C6 (inverted range). For two addresses that standardise to the same width,
  \<open>Range2CIDRs\<close> returns the InvertedRange error exactly when start is above end as an
  unsigned integer, and then the block list it returns is empty.\<close>

theorem C6_inverted_range:
  assumes "standardizeIP a = Some a'" "standardizeIP b = Some b'"
    and "length a' = length b'"
  shows "((\<exists>cidrs. Range2CIDRs (Some a) (Some b) = Some (cidrs, Some InvertedRange))
            \<longleftrightarrow> SetBytes a' > SetBytes b') \<and>
         (SetBytes a' > SetBytes b' \<longrightarrow>
            Range2CIDRs (Some a) (Some b) = Some ([], Some InvertedRange))"
proof (cases "SetBytes a' > SetBytes b'")
  case True
  then have "Range2CIDRs (Some a) (Some b) = Some ([], Some InvertedRange)"
    using assms by (simp add: Range2CIDRs_def slice_bytes_def Let_def)
  then show ?thesis using True by simp
next
  case False
  then have "SetBytes a' \<le> SetBytes b'" by simp
  from Range2CIDRs_valid [OF assms this] show ?thesis using False by simp
qed

theorem C6_inverted_range_witness:
  "Range2CIDRs (Some [192, 168, 2, 255]) (Some [192, 168, 1, 0]) = Some ([], Some InvertedRange)"
proof -
  have h1: "standardizeIP [192, 168, 2, 255] = Some [192, 168, 2, 255]" by code_simp
  have h2: "standardizeIP [192, 168, 1, 0] = Some [192, 168, 1, 0]" by code_simp
  have h3: "length [192, 168, 2, 255 :: byte] = length [192, 168, 1, 0 :: byte]" by simp
  have h4: "SetBytes [192, 168, 2, 255] > SetBytes [192, 168, 1, 0]" by code_simp
  show ?thesis using C6_inverted_range [OF h1 h2 h3] h4 by blast
qed

text \<open>C7 (family mismatch). Whenever start and end standardise to different widths,
  \<open>Range2CIDRs\<close> returns the FamilyMismatch error and no blocks. In particular this is so
  for every IPv4 start (an address \<open>To4\<close> accepts) paired with an IPv6 end (16 bytes that
  \<open>To4\<close> rejects).\<close>

theorem C7_family_mismatch:
  "(standardizeIP a = Some a' \<and> standardizeIP b = Some b' \<and> length a' \<noteq> length b' \<longrightarrow>
      Range2CIDRs (Some a) (Some b) = Some ([], Some FamilyMismatch)) \<and>
   (To4 a = Some a' \<and> To4 b = None \<and> length b = 16 \<longrightarrow>
      Range2CIDRs (Some a) (Some b) = Some ([], Some FamilyMismatch))"
proof (intro conjI impI)
  assume "standardizeIP a = Some a' \<and> standardizeIP b = Some b' \<and> length a' \<noteq> length b'"
  then show "Range2CIDRs (Some a) (Some b) = Some ([], Some FamilyMismatch)"
    by (simp add: Range2CIDRs_def slice_bytes_def Let_def)
next
  assume h: "To4 a = Some a' \<and> To4 b = None \<and> length b = 16"
  then have "standardizeIP a = Some a'" "standardizeIP b = Some b" "length a' = 4"
    by (auto simp: standardizeIP_def To16_def dest: To4_length)
  then show "Range2CIDRs (Some a) (Some b) = Some ([], Some FamilyMismatch)"
    using h by (simp add: Range2CIDRs_def slice_bytes_def Let_def)
qed

theorem C7_family_mismatch_witness:
  "Range2CIDRs (Some [192, 168, 1, 0])
     (Some [0x24, 0, 0xee, 0, 0x10, 0x1c, 0x61, 0, 0, 0, 0x9d, 0x41, 0xe2, 0xa9, 0xef, 0xd7]) =
   Some ([], Some FamilyMismatch)"
proof -
  have h1: "standardizeIP [192, 168, 1, 0] = Some [192, 168, 1, 0]" by code_simp
  have h2: "standardizeIP [0x24, 0, 0xee, 0, 0x10, 0x1c, 0x61, 0, 0, 0, 0x9d, 0x41, 0xe2, 0xa9, 0xef, 0xd7]
     = Some [0x24, 0, 0xee, 0, 0x10, 0x1c, 0x61, 0, 0, 0, 0x9d, 0x41, 0xe2, 0xa9, 0xef, 0xd7]"
    by code_simp
  have h3: "length [192, 168, 1, 0 :: byte] \<noteq>
     length [0x24, 0, 0xee, 0, 0x10, 0x1c, 0x61, 0, 0, 0, 0x9d, 0x41, 0xe2, 0xa9, 0xef, 0xd7 :: byte]"
    by simp
  have h4: "To4 [192, 168, 1, 0] = Some [192, 168, 1, 0]" by code_simp
  have h5: "To4 [0x24, 0, 0xee, 0, 0x10, 0x1c, 0x61, 0, 0, 0, 0x9d, 0x41, 0xe2, 0xa9, 0xef, 0xd7] = None"
    by code_simp
  show ?thesis
    using C7_family_mismatch [of "[192, 168, 1, 0]" "[192, 168, 1, 0]"
        "[0x24, 0, 0xee, 0, 0x10, 0x1c, 0x61, 0, 0, 0, 0x9d, 0x41, 0xe2, 0xa9, 0xef, 0xd7]"
        "[0x24, 0, 0xee, 0, 0x10, 0x1c, 0x61, 0, 0, 0, 0x9d, 0x41, 0xe2, 0xa9, 0xef, 0xd7]"]
      h1 h2 h3 h4 h5 by blast
qed

section \<open>Claims the code does not meet\<close>

text \<open>C1 (whole address space). The claim asks for the single block \<open>0.0.0.0/0\<close>. The first
  inner loop stops at \<open>i < maxLen\<close>, so the exponent never reaches the width: on
  \<open>0.0.0.0\<close> - \<open>255.255.255.255\<close> the code returns the two blocks \<open>0.0.0.0/1\<close> and
  \<open>128.0.0.0/1\<close>.\<close>

theorem C1_whole_space_ipv4:
  "Range2CIDRs (Some [0, 0, 0, 0]) (Some [255, 255, 255, 255]) =
     Some ([\<lparr>IP = [0, 0, 0, 0], Mask = Some [128, 0, 0, 0]\<rparr>,
            \<lparr>IP = [128, 0, 0, 0], Mask = Some [128, 0, 0, 0]\<rparr>], None) \<and>
   prefix_len \<lparr>IP = [0, 0, 0, 0], Mask = Some [128, 0, 0, 0]\<rparr> = 1 \<and>
   prefix_len \<lparr>IP = [128, 0, 0, 0], Mask = Some [128, 0, 0, 0]\<rparr> = 1"
  by code_simp

text \<open>C3 (minimality). On the whole IPv6 address space the code returns two blocks,
  \<open>::/1\<close> and \<open>8000::/1\<close>. They are adjacent and merge into the one aligned block
  \<open>::/0\<close>, which covers the range exactly: the result is not of minimal length.\<close>

theorem C3_whole_space_not_minimal:
  "Range2CIDRs (Some [0, 0, 0, 0, 0, 0, 0, 0, 0, 0, 0, 0, 0, 0, 0, 0])
     (Some [255, 255, 255, 255, 255, 255, 255, 255, 255, 255, 255, 255, 255, 255, 255, 255]) =
     Some ([\<lparr>IP = [0, 0, 0, 0, 0, 0, 0, 0, 0, 0, 0, 0, 0, 0, 0, 0],
              Mask = Some [128, 0, 0, 0, 0, 0, 0, 0, 0, 0, 0, 0, 0, 0, 0, 0]\<rparr>,
            \<lparr>IP = [128, 0, 0, 0, 0, 0, 0, 0, 0, 0, 0, 0, 0, 0, 0, 0],
              Mask = Some [128, 0, 0, 0, 0, 0, 0, 0, 0, 0, 0, 0, 0, 0, 0, 0]\<rparr>], None) \<and>
   last_addr \<lparr>IP = [0, 0, 0, 0, 0, 0, 0, 0, 0, 0, 0, 0, 0, 0, 0, 0],
              Mask = Some [128, 0, 0, 0, 0, 0, 0, 0, 0, 0, 0, 0, 0, 0, 0, 0]\<rparr> + 1 =
     net_addr \<lparr>IP = [128, 0, 0, 0, 0, 0, 0, 0, 0, 0, 0, 0, 0, 0, 0, 0],
              Mask = Some [128, 0, 0, 0, 0, 0, 0, 0, 0, 0, 0, 0, 0, 0, 0, 0]\<rparr> \<and>
   prefix_len \<lparr>IP = [0, 0, 0, 0, 0, 0, 0, 0, 0, 0, 0, 0, 0, 0, 0, 0], Mask = CIDRMask 0 128\<rparr> = 0 \<and>
   net_addr \<lparr>IP = [0, 0, 0, 0, 0, 0, 0, 0, 0, 0, 0, 0, 0, 0, 0, 0], Mask = CIDRMask 0 128\<rparr> =
     SetBytes [0, 0, 0, 0, 0, 0, 0, 0, 0, 0, 0, 0, 0, 0, 0, 0] \<and>
   last_addr \<lparr>IP = [0, 0, 0, 0, 0, 0, 0, 0, 0, 0, 0, 0, 0, 0, 0, 0], Mask = CIDRMask 0 128\<rparr> =
     SetBytes [255, 255, 255, 255, 255, 255, 255, 255, 255, 255, 255, 255, 255, 255, 255, 255]"
  by code_simp

text \<open>An absent (\<open>nil\<close>) address is rejected with InvalidInput and no blocks.\<close>

lemma Range2CIDRs_nil:
  "Range2CIDRs None endIP = Some ([], Some InvalidInput)"
  "Range2CIDRs startIP None = Some ([], Some InvalidInput)"
  by (simp_all add: Range2CIDRs_def split: option.splits)

text \<open>C8 (invalid input). The only validation is the \<open>nil\<close> test. Two non-\<open>nil\<close>
  five-byte slices both standardise to \<open>nil\<close>, pass the length comparison with length 0,
  and the loop returns one block with an empty address and a \<open>nil\<close> mask, without an
  error. When only one of the two cannot be standardised, the error is FamilyMismatch.\<close>

theorem C8_unnormalizable_input:
  "Range2CIDRs (Some [1, 2, 3, 4, 5]) (Some [1, 2, 3, 4, 5]) =
     Some ([\<lparr>IP = [], Mask = None\<rparr>], None) \<and>
   Range2CIDRs (Some [1, 2, 3, 4, 5]) (Some [1, 2, 3, 4]) = Some ([], Some FamilyMismatch)"
  by code_simp

section \<open>Decomposing a returned block again\<close>

lemma block_size_exact:
  assumes "2 ^ k dvd p" "k < L"
  shows "block_size L p (p + 2 ^ k - 1) = k"
proof -
  have le: "p \<le> p + 2 ^ k - 1"
  proof -
    have "(1::int) \<le> 2 ^ k" by simp
    then show ?thesis by linarith
  qed
  have "(2::int) ^ block_size L p (p + 2 ^ k - 1) \<le> 2 ^ k"
    using block_size_props(2) [OF le, where L = L] by linarith
  then have "block_size L p (p + 2 ^ k - 1) \<le> k" by simp
  moreover have "k \<le> block_size L p (p + 2 ^ k - 1)"
    using block_size_props(4) [OF le, where L = L and j = k] assms by simp
  ultimately show ?thesis by simp
qed

lemma blocks_single:
  assumes "2 ^ k dvd p" "k < L"
  shows "blocks L p (p + 2 ^ k - 1) = [(p, k)]"
proof -
  have le: "p \<le> p + 2 ^ k - 1"
  proof -
    have "(1::int) \<le> 2 ^ k" by simp
    then show ?thesis by linarith
  qed
  have "blocks L p (p + 2 ^ k - 1) = (p, k) # blocks L (p + 2 ^ k) (p + 2 ^ k - 1)"
    using le by (simp add: blocks.simps [of L p "p + 2 ^ k - 1"] block_size_exact [OF assms])
  moreover have "blocks L (p + 2 ^ k) (p + 2 ^ k - 1) = []"
    by (simp add: blocks.simps [of L "p + 2 ^ k" "p + 2 ^ k - 1"])
  ultimately show ?thesis by simp
qed

lemma standardizeIP_same:
  assumes "length x = 4 \<or> (length x = 16 \<and> To4 x = None)"
  shows "standardizeIP x = Some x"
  using assms by (auto simp: standardizeIP_def To4_def To16_def)

text \<open>C9, as the code has it. \<open>standardizeIP\<close> turns a 16-byte IPv4-mapped address into its
  4-byte form, so a block of an IPv6 result whose network address or last address is
  IPv4-mapped is not given back. For every block \<open>B\<close> of the result on a valid range, if the
  range is IPv4, or neither the network address nor the last address of \<open>B\<close> is
  IPv4-mapped, decomposing from \<open>B\<close>'s network address to \<open>B\<close>'s last address returns
  exactly the single block \<open>B\<close>.\<close>

theorem C9_redecomposition:
  assumes "standardizeIP a = Some a'" "standardizeIP b = Some b'"
    and "length a' = length b'" "SetBytes a' \<le> SetBytes b'"
    and "Range2CIDRs (Some a) (Some b) = Some (cidrs, None)" "B \<in> set cidrs"
    and "length a' = 4 \<or> (To4 (IP B) = None \<and> To4 (last_ip B) = None)"
  shows "Range2CIDRs (Some (IP B)) (Some (last_ip B)) = Some ([B], None)"
proof -
  define n where "n = length a'"
  define s where "s = SetBytes a'"
  define e where "e = SetBytes b'"
  define bl where "bl = blocks (n * 8) s e"
  have n: "n = 4 \<or> n = 16" using standardizeIP_length [OF assms(1)] by (simp add: n_def)
  have s0: "0 \<le> s" using SetBytes_bounds [of a'] by (simp add: s_def)
  have e1: "e < 256 ^ n" using SetBytes_bounds [of b'] assms(3) by (simp add: e_def n_def)
  have "Range2CIDRs (Some a) (Some b) = Some (map (mk_net n) bl, None)"
    using Range2CIDRs_valid [OF assms(1-4)] by (simp add: n_def s_def e_def bl_def)
  then have "cidrs = map (mk_net n) bl" using assms(5) by simp
  then obtain p k where pk: "(p, k) \<in> set bl" and B: "B = mk_net n (p, k)"
    using assms(6) by auto
  note v = blocks_elem_valid [OF pk [unfolded bl_def] s0 e1 n]
  have k: "k \<le> n * 8" using v(3) by simp
  note f = mk_net_fields [OF n k v(1) v(2)]
  note l = mk_net_last [OF n k v(1) v(2) v(4)]
  have ip: "IP B = be_bytes n p" by (simp add: B f(1))
  have la: "last_addr B = p + 2 ^ k - 1" unfolding B by (rule l(1))
  have lip: "last_ip B = be_bytes n (p + 2 ^ k - 1)"
    unfolding last_ip_def la ip by (simp add: length_be_bytes)
  have q0: "0 \<le> p + 2 ^ k - 1"
  proof -
    have "(1::int) \<le> 2 ^ k" by simp
    then show ?thesis using v(1) by linarith
  qed
  have q1: "p + 2 ^ k - 1 < 256 ^ n" using v(6) e1 by linarith
  have len: "length (IP B) = n" "length (last_ip B) = n"
    by (simp_all add: ip lip length_be_bytes)
  have which: "n = 4 \<or> (n = 16 \<and> To4 (IP B) = None \<and> To4 (last_ip B) = None)"
    using assms(7) n by (auto simp: n_def)
  have st1: "standardizeIP (IP B) = Some (IP B)"
    using which len by (intro standardizeIP_same) auto
  have st2: "standardizeIP (last_ip B) = Some (last_ip B)"
    using which len by (intro standardizeIP_same) auto
  have sb1: "SetBytes (IP B) = p" by (simp add: ip SetBytes_be_bytes v(1) v(2))
  have sb2: "SetBytes (last_ip B) = p + 2 ^ k - 1"
    unfolding lip by (rule SetBytes_be_bytes [OF q0 q1])
  have le: "SetBytes (IP B) \<le> SetBytes (last_ip B)" unfolding sb1 sb2 using q0 
  proof -
    have "(1::int) \<le> 2 ^ k" by simp
    then show "p \<le> p + 2 ^ k - 1" by linarith
  qed
  have "Range2CIDRs (Some (IP B)) (Some (last_ip B)) =
          Some (map (mk_net n) (blocks (n * 8) p (p + 2 ^ k - 1)), None)"
    using Range2CIDRs_valid [OF st1 st2 _ le] len by (simp add: sb1 sb2)
  then show ?thesis by (simp add: blocks_single [OF v(4) v(3)] B)
qed

text \<open>C9, as stated, fails on IPv6 results. On \<open>::\<close> - \<open>::1:0:0:0\<close> the first block is
  \<open>::/80\<close>; its last address \<open>::ffff:255.255.255.255\<close> is IPv4-mapped and standardises
  to 4 bytes, so decomposing the block again ends in the FamilyMismatch error. On
  \<open>::fffe:ffff:ffff\<close> - \<open>::1:0:0:0\<close> the second block is \<open>::ffff:0:0/96\<close>; both its
  ends are IPv4-mapped and decomposing it again gives the IPv4 blocks \<open>0.0.0.0/1\<close> and
  \<open>128.0.0.0/1\<close>.\<close>

theorem C9_counterexample:
  "Range2CIDRs (Some [0, 0, 0, 0, 0, 0, 0, 0, 0, 0, 0, 0, 0, 0, 0, 0]) (Some [0, 0, 0, 0, 0, 0, 0, 0, 0, 1, 0, 0, 0, 0, 0, 0]) =
     Some ([\<lparr>IP = [0, 0, 0, 0, 0, 0, 0, 0, 0, 0, 0, 0, 0, 0, 0, 0],
        Mask = Some [255, 255, 255, 255, 255, 255, 255, 255, 255, 255, 0, 0, 0, 0, 0, 0]\<rparr>,
            \<lparr>IP = [0, 0, 0, 0, 0, 0, 0, 0, 0, 1, 0, 0, 0, 0, 0, 0],
        Mask = Some [255, 255, 255, 255, 255, 255, 255, 255, 255, 255, 255, 255, 255, 255, 255, 255]\<rparr>], None) \<and>
   Range2CIDRs
     (Some (IP \<lparr>IP = [0, 0, 0, 0, 0, 0, 0, 0, 0, 0, 0, 0, 0, 0, 0, 0],
        Mask = Some [255, 255, 255, 255, 255, 255, 255, 255, 255, 255, 0, 0, 0, 0, 0, 0]\<rparr>))
     (Some (last_ip \<lparr>IP = [0, 0, 0, 0, 0, 0, 0, 0, 0, 0, 0, 0, 0, 0, 0, 0],
        Mask = Some [255, 255, 255, 255, 255, 255, 255, 255, 255, 255, 0, 0, 0, 0, 0, 0]\<rparr>)) =
     Some ([], Some FamilyMismatch) \<and>
   Range2CIDRs (Some [0, 0, 0, 0, 0, 0, 0, 0, 0, 0, 255, 254, 255, 255, 255, 255]) (Some [0, 0, 0, 0, 0, 0, 0, 0, 0, 1, 0, 0, 0, 0, 0, 0]) =
     Some ([\<lparr>IP = [0, 0, 0, 0, 0, 0, 0, 0, 0, 0, 255, 254, 255, 255, 255, 255],
        Mask = Some [255, 255, 255, 255, 255, 255, 255, 255, 255, 255, 255, 255, 255, 255, 255, 255]\<rparr>,
            \<lparr>IP = [0, 0, 0, 0, 0, 0, 0, 0, 0, 0, 255, 255, 0, 0, 0, 0],
        Mask = Some [255, 255, 255, 255, 255, 255, 255, 255, 255, 255, 255, 255, 0, 0, 0, 0]\<rparr>,
            \<lparr>IP = [0, 0, 0, 0, 0, 0, 0, 0, 0, 1, 0, 0, 0, 0, 0, 0],
        Mask = Some [255, 255, 255, 255, 255, 255, 255, 255, 255, 255, 255, 255, 255, 255, 255, 255]\<rparr>], None) \<and>
   Range2CIDRs
     (Some (IP \<lparr>IP = [0, 0, 0, 0, 0, 0, 0, 0, 0, 0, 255, 255, 0, 0, 0, 0],
        Mask = Some [255, 255, 255, 255, 255, 255, 255, 255, 255, 255, 255, 255, 0, 0, 0, 0]\<rparr>))
     (Some (last_ip \<lparr>IP = [0, 0, 0, 0, 0, 0, 0, 0, 0, 0, 255, 255, 0, 0, 0, 0],
        Mask = Some [255, 255, 255, 255, 255, 255, 255, 255, 255, 255, 255, 255, 0, 0, 0, 0]\<rparr>)) =
     Some ([\<lparr>IP = [0, 0, 0, 0],
        Mask = Some [128, 0, 0, 0]\<rparr>,
            \<lparr>IP = [128, 0, 0, 0],
        Mask = Some [128, 0, 0, 0]\<rparr>], None)"
  by code_simp

theorem C9_redecomposition_witness:
  "Range2CIDRs
     (Some (IP \<lparr>IP = [36, 0, 238, 0, 16, 28, 97, 0, 0, 0, 157, 65, 226, 169, 239, 208],
        Mask = Some [255, 255, 255, 255, 255, 255, 255, 255, 255, 255, 255, 255, 255, 255, 255, 248]\<rparr>))
     (Some (last_ip \<lparr>IP = [36, 0, 238, 0, 16, 28, 97, 0, 0, 0, 157, 65, 226, 169, 239, 208],
        Mask = Some [255, 255, 255, 255, 255, 255, 255, 255, 255, 255, 255, 255, 255, 255, 255, 248]\<rparr>)) =
     Some ([\<lparr>IP = [36, 0, 238, 0, 16, 28, 97, 0, 0, 0, 157, 65, 226, 169, 239, 208],
        Mask = Some [255, 255, 255, 255, 255, 255, 255, 255, 255, 255, 255, 255, 255, 255, 255, 248]\<rparr>], None)"
proof -
  have h1: "standardizeIP [36, 0, 238, 0, 16, 28, 97, 0, 0, 0, 157, 65, 226, 169, 239, 207] = Some [36, 0, 238, 0, 16, 28, 97, 0, 0, 0, 157, 65, 226, 169, 239, 207]"
    by code_simp
  have h2: "standardizeIP [36, 0, 238, 0, 16, 28, 97, 0, 0, 0, 157, 65, 226, 169, 239, 215] = Some [36, 0, 238, 0, 16, 28, 97, 0, 0, 0, 157, 65, 226, 169, 239, 215]"
    by code_simp
  have h3: "length ([36, 0, 238, 0, 16, 28, 97, 0, 0, 0, 157, 65, 226, 169, 239, 207] :: byte list) = length ([36, 0, 238, 0, 16, 28, 97, 0, 0, 0, 157, 65, 226, 169, 239, 215] :: byte list)"
    by simp
  have h4: "SetBytes [36, 0, 238, 0, 16, 28, 97, 0, 0, 0, 157, 65, 226, 169, 239, 207] \<le> SetBytes [36, 0, 238, 0, 16, 28, 97, 0, 0, 0, 157, 65, 226, 169, 239, 215]"
    by code_simp
  have h5: "Range2CIDRs (Some [36, 0, 238, 0, 16, 28, 97, 0, 0, 0, 157, 65, 226, 169, 239, 207]) (Some [36, 0, 238, 0, 16, 28, 97, 0, 0, 0, 157, 65, 226, 169, 239, 215]) =
      Some ([\<lparr>IP = [36, 0, 238, 0, 16, 28, 97, 0, 0, 0, 157, 65, 226, 169, 239, 207],
        Mask = Some [255, 255, 255, 255, 255, 255, 255, 255, 255, 255, 255, 255, 255, 255, 255, 255]\<rparr>,
             \<lparr>IP = [36, 0, 238, 0, 16, 28, 97, 0, 0, 0, 157, 65, 226, 169, 239, 208],
        Mask = Some [255, 255, 255, 255, 255, 255, 255, 255, 255, 255, 255, 255, 255, 255, 255, 248]\<rparr>], None)"
    by code_simp
  have h6: "\<lparr>IP = [36, 0, 238, 0, 16, 28, 97, 0, 0, 0, 157, 65, 226, 169, 239, 208],
        Mask = Some [255, 255, 255, 255, 255, 255, 255, 255, 255, 255, 255, 255, 255, 255, 255, 248]\<rparr> \<in> set [\<lparr>IP = [36, 0, 238, 0, 16, 28, 97, 0, 0, 0, 157, 65, 226, 169, 239, 207],
        Mask = Some [255, 255, 255, 255, 255, 255, 255, 255, 255, 255, 255, 255, 255, 255, 255, 255]\<rparr>,
             \<lparr>IP = [36, 0, 238, 0, 16, 28, 97, 0, 0, 0, 157, 65, 226, 169, 239, 208],
        Mask = Some [255, 255, 255, 255, 255, 255, 255, 255, 255, 255, 255, 255, 255, 255, 255, 248]\<rparr>]"
    by simp
  have h7: "length ([36, 0, 238, 0, 16, 28, 97, 0, 0, 0, 157, 65, 226, 169, 239, 207] :: byte list) = 4 \<or>
      (To4 (IP \<lparr>IP = [36, 0, 238, 0, 16, 28, 97, 0, 0, 0, 157, 65, 226, 169, 239, 208],
        Mask = Some [255, 255, 255, 255, 255, 255, 255, 255, 255, 255, 255, 255, 255, 255, 255, 248]\<rparr>) = None \<and>
       To4 (last_ip \<lparr>IP = [36, 0, 238, 0, 16, 28, 97, 0, 0, 0, 157, 65, 226, 169, 239, 208],
        Mask = Some [255, 255, 255, 255, 255, 255, 255, 255, 255, 255, 255, 255, 255, 255, 255, 248]\<rparr>) = None)"
    by code_simp
  show ?thesis by (rule C9_redecomposition [OF h1 h2 h3 h4 h5 h6 h7])
qed

section \<open>The number of blocks\<close>

lemma blocks_step:
  "s \<le> e \<Longrightarrow> blocks L s e = (s, block_size L s e) # blocks L (s + 2 ^ block_size L s e) e"
  by (simp add: blocks.simps [of L s e])

lemma blocks_empty: "\<not> s \<le> e \<Longrightarrow> blocks L s e = []"
  by (simp add: blocks.simps [of L s e])

lemma block_size_max:
  assumes "s \<le> e" "e - s + 1 < 2 ^ L" "2 ^ j dvd s" "s + 2 ^ j - 1 \<le> e"
  shows "j \<le> block_size L s e"
proof -
  have "(2::int) ^ j < 2 ^ L" using assms(2,4) by linarith
  then have "j < L" by simp
  then show ?thesis using block_size_props(4) [OF assms(1)] assms(3,4) by simp
qed

lemma dvd_step:
  assumes "(2::int) ^ k dvd s" "\<not> 2 ^ Suc k dvd s"
  shows "2 ^ Suc k dvd s + 2 ^ k"
proof -
  obtain q where q: "s = 2 ^ k * q" using assms(1) by (auto simp: dvd_def)
  have "odd q"
  proof
    assume "even q"
    then obtain r where "q = 2 * r" by (auto simp: dvd_def)
    then have "s = 2 ^ Suc k * r" using q by simp
    then show False using assms(2) by simp
  qed
  then have "even (q + 1)" by simp
  then obtain r where r: "q + 1 = 2 * r" by (auto simp: dvd_def)
  have "s + 2 ^ k = 2 ^ k * (q + 1)" by (simp add: q algebra_simps)
  also have "\<dots> = 2 ^ Suc k * r" by (simp add: r)
  finally show ?thesis by simp
qed

lemma pow2_ge1: "(1::int) \<le> 2 ^ k"
  by simp

lemma pow2_lt_imp: "(2::int) ^ a < 2 ^ b \<Longrightarrow> a < b"
  by simp

text \<open>Once the start is aligned above the size of what is left, the exponents fall
  strictly, so at most \<open>m\<close> blocks follow.\<close>

lemma tail_bound:
  "2 ^ m dvd s \<Longrightarrow> e - s + 2 < 2 ^ Suc m \<Longrightarrow> e - s + 1 < 2 ^ L \<Longrightarrow>
     length (blocks L s e) \<le> m"
proof (induction m arbitrary: s rule: less_induct)
  case (less m)
  show ?case
  proof (cases "s \<le> e")
    case False
    then show ?thesis by (simp add: blocks_empty)
  next
    case True
    define k where "k = block_size L s e"
    define s' where "s' = s + 2 ^ k"
    have kd: "2 ^ k dvd s" and kle: "s + 2 ^ k - 1 \<le> e"
      using block_size_props(1,2) [OF True, of L] by (simp_all add: k_def)
    have kmax: "j \<le> k" if "2 ^ j dvd s" "s + 2 ^ j - 1 \<le> e" for j
      unfolding k_def using block_size_max [OF True less.prems(3) that] .
    have len: "length (blocks L s e) = Suc (length (blocks L s' e))"
      by (simp add: blocks_step [OF True] k_def s'_def)
    have "(2::int) ^ k < 2 ^ Suc m" using kle less.prems(2) by linarith
    then have "k < Suc m" by (rule pow2_lt_imp)
    then have km: "k \<le> m" by simp
    have L': "e - s' + 1 < 2 ^ L" using less.prems(3) pow2_ge1 [of k] unfolding s'_def by linarith
    show ?thesis
    proof (cases "k = m")
      case True
      have "m \<noteq> 0"
      proof
        assume "m = 0"
        then show False using less.prems(2) \<open>s \<le> e\<close> by simp
      qed
      then obtain m' where m: "m = Suc m'" by (cases m) auto
      have "(2::int) ^ m' dvd 2 ^ m" by (simp add: m)
      then have "2 ^ m' dvd s'"
        unfolding s'_def using less.prems(1) True by (metis dvd_add dvd_trans)
      moreover have "e - s' + 2 < 2 ^ Suc m'"
        using less.prems(2) unfolding s'_def True m power_Suc by linarith
      ultimately have "length (blocks L s' e) \<le> m'"
        using less.IH [of m' s'] L' by (simp add: m)
      then show ?thesis by (simp add: len m)
    next
      case False
      then have lt: "k < m" using km by simp
      then have "(2::int) ^ Suc k dvd 2 ^ m" by (intro le_imp_power_dvd) simp
      then have "2 ^ Suc k dvd s" using less.prems(1) by (rule dvd_trans)
      then have "\<not> s + 2 ^ Suc k - 1 \<le> e" using kmax [of "Suc k"] by auto
      then have "e - s' + 2 < 2 ^ Suc k" using pow2_ge1 [of k] unfolding s'_def power_Suc by linarith
      moreover have "2 ^ k dvd s'" unfolding s'_def using kd by simp
      ultimately have "length (blocks L s' e) \<le> k"
        using less.IH [OF lt, of s'] L' by simp
      then show ?thesis using lt by (simp add: len)
    qed
  qed
qed

text \<open>In general the exponents first rise (each block is as large as the alignment of
  the start allows) and then fall: from a start aligned to \<open>2 ^ i\<close> with fewer than
  \<open>2 ^ (j + 1) - 1\<close> addresses left, at most \<open>2 * j - i\<close> blocks follow.\<close>

lemma general_bound:
  "2 ^ i dvd s \<Longrightarrow> e - s + 2 < 2 ^ Suc j \<Longrightarrow> i \<le> j \<Longrightarrow> e - s + 1 < 2 ^ L \<Longrightarrow>
     length (blocks L s e) \<le> 2 * j - i"
proof (induction "j - i" arbitrary: i s rule: less_induct)
  case less
  show ?case
  proof (cases "i = j")
    case True
    then show ?thesis using tail_bound [OF less.prems(1) _ less.prems(4)] less.prems(2) by simp
  next
    case False
    then have ij: "i < j" using less.prems(3) by simp
    show ?thesis
    proof (cases "s \<le> e")
      case False
      then show ?thesis by (simp add: blocks_empty)
    next
      case True
      define k where "k = block_size L s e"
      define s' where "s' = s + 2 ^ k"
      have kd: "2 ^ k dvd s" and kle: "s + 2 ^ k - 1 \<le> e"
        using block_size_props(1,2) [OF True, of L] by (simp_all add: k_def)
      have kmax: "j \<le> k" if "2 ^ j dvd s" "s + 2 ^ j - 1 \<le> e" for j
        unfolding k_def using block_size_max [OF True less.prems(4) that] .
      have len: "length (blocks L s e) = Suc (length (blocks L s' e))"
        by (simp add: blocks_step [OF True] k_def s'_def)
      have L': "e - s' + 1 < 2 ^ L" using less.prems(4) pow2_ge1 [of k] unfolding s'_def by linarith
      have "(2::int) ^ k < 2 ^ Suc j" using kle less.prems(2) by linarith
      then have "k < Suc j" by (rule pow2_lt_imp)
      then have kj: "k \<le> j" by simp
      have ks': "2 ^ k dvd s'" unfolding s'_def using kd by simp
      show ?thesis
      proof (cases "e - s + 1 < 2 ^ i")
        case True
        then have "e - s + 2 < 2 ^ Suc i" using pow2_ge1 [of i] unfolding power_Suc by linarith
        then have "length (blocks L s e) \<le> i"
          using tail_bound [OF less.prems(1) _ less.prems(4)] by simp
        then show ?thesis using ij by simp
      next
        case False
        then have "s + 2 ^ i - 1 \<le> e" by simp
        then have ik: "i \<le> k" using kmax [OF less.prems(1)] by simp
        show ?thesis
        proof (cases "2 ^ Suc k dvd s")
          case True
          then have "\<not> s + 2 ^ Suc k - 1 \<le> e" using kmax [of "Suc k"] by auto
          then have "e - s' + 2 < 2 ^ Suc k" using pow2_ge1 [of k] unfolding s'_def power_Suc by linarith
          then have "length (blocks L s' e) \<le> k" using tail_bound [OF ks' _ L'] by simp
          then show ?thesis using kj ij by (simp add: len)
        next
          case False
          then have d': "2 ^ Suc k dvd s'" unfolding s'_def using dvd_step [OF kd] by simp
          have r': "e - s' + 2 < 2 ^ Suc j" using less.prems(2) pow2_ge1 [of k] unfolding s'_def by linarith
          show ?thesis
          proof (cases "Suc k \<le> j")
            case True
            have "j - Suc k < j - i" using ik True by simp
            then have "length (blocks L s' e) \<le> 2 * j - Suc k"
              using less.hyps [OF _ d' r' True L'] by simp
            then show ?thesis using ik True by (simp add: len)
          next
            case False
            then have "k = j" using kj by simp
            then have "2 ^ j dvd s'" using ks' by simp
            then have "length (blocks L s' e) \<le> j" using tail_bound [OF _ r' L'] by simp
            then show ?thesis using ij by (simp add: len)
          qed
        qed
      qed
    qed
  qed
qed

lemma blocks_length_bound:
  assumes "0 \<le> s" "e < 2 ^ L" "2 \<le> L"
  shows "length (blocks L s e) \<le> 2 * L - 2"
proof -
  obtain L' where L: "L = Suc L'" and L1: "1 \<le> L'" using assms(3) by (cases L) auto
  have p1: "(2::int) \<le> 2 ^ L'" using L1 by (metis power_increasing one_le_numeral power_one_right)
  show ?thesis
  proof (cases "s \<le> e")
    case False
    then show ?thesis by (simp add: blocks_empty)
  next
    case True
    have dL: "e - s + 1 < 2 ^ L" if "e - s + 1 \<noteq> 2 ^ L" using assms(1,2) that by linarith
    show ?thesis
    proof (cases "e - s + 2 < 2 ^ L")
      case True
      have "length (blocks L s e) \<le> 2 * L' - 0"
      proof (rule general_bound)
        show "2 ^ 0 dvd s" by simp
        show "e - s + 2 < 2 ^ Suc L'" using True by (simp add: L)
        show "0 \<le> L'" by simp
        show "e - s + 1 < 2 ^ L" using True by linarith
      qed
      then show ?thesis by (simp add: L)
    next
      case False
      then consider "s = 0" "e = 2 ^ L - 2" | "s = 0" "e = 2 ^ L - 1" | "s = 1" "e = 2 ^ L - 1"
        using assms(1,2) by linarith
      then show ?thesis
      proof cases
        case 1
        have "length (blocks L s e) \<le> L"
        proof (rule tail_bound)
          show "2 ^ L dvd s" by (simp add: 1)
          show "e - s + 2 < 2 ^ Suc L" using pow2_ge1 [of L] unfolding 1 power_Suc by linarith
          show "e - s + 1 < 2 ^ L" unfolding 1 by linarith
        qed
        then show ?thesis using assms(3) by linarith
      next
        case 2
        define k where "k = block_size L s e"
        define s' where "s' = s + 2 ^ k"
        have "k < L \<or> k = 0" using block_size_props(3) [OF True, of L] by (simp add: k_def)
        then have "k \<le> L'" by (auto simp: L)
        moreover have "L' \<le> k"
          unfolding k_def
        proof (rule block_size_props(4) [OF True])
          show "L' < L" by (simp add: L)
          show "2 ^ L' dvd s" by (simp add: 2)
          show "s + 2 ^ L' - 1 \<le> e" unfolding 2 L power_Suc using pow2_ge1 [of L'] by linarith
        qed
        ultimately have k: "k = L'" by simp
        have len: "length (blocks L s e) = Suc (length (blocks L s' e))"
          by (simp add: blocks_step [OF True] k_def s'_def)
        have "length (blocks L s' e) \<le> L'"
        proof (rule tail_bound)
          show "2 ^ L' dvd s'" by (simp add: s'_def 2 k)
          show "e - s' + 2 < 2 ^ Suc L'" unfolding s'_def 2 k L power_Suc using p1 by linarith
          show "e - s' + 1 < 2 ^ L" unfolding s'_def 2 k L power_Suc using p1 by linarith
        qed
        then show ?thesis unfolding len using L1 by (simp add: L)
      next
        case 3
        define k where "k = block_size L s e"
        define s' where "s' = s + 2 ^ k"
        have "(2::int) ^ k dvd 1" using block_size_props(1) [OF True, of L] by (simp add: k_def 3)
        then have "(2::int) ^ k \<le> 1" by (intro zdvd_imp_le) simp_all
        then have "(2::int) ^ k < 2 ^ 1" by simp
        then have "k < 1" by (rule pow2_lt_imp)
        then have k: "k = 0" by simp
        have len: "length (blocks L s e) = Suc (length (blocks L s' e))"
          by (simp add: blocks_step [OF True] k_def s'_def)
        have "length (blocks L s' e) \<le> 2 * L' - 1"
        proof (rule general_bound)
          show "2 ^ 1 dvd s'" by (simp add: s'_def 3 k)
          show "e - s' + 2 < 2 ^ Suc L'" unfolding s'_def 3 k L by simp
          show "1 \<le> L'" by (rule L1)
          show "e - s' + 1 < 2 ^ L" unfolding s'_def 3 k L by simp
        qed
        then show ?thesis unfolding len using L1 by (simp add: L)
      qed
    qed
  qed
qed

lemma pow256: "(256::int) ^ n = 2 ^ (n * 8)"
proof -
  have "(2::int) ^ (8 * n) = (2 ^ 8) ^ n" by (rule power_mult)
  then show ?thesis by (simp add: mult.commute)
qed

text \<open>C10, as stated, fails: the bound of \<open>width\<close> blocks does not hold. On
  \<open>0.0.0.1\<close> - \<open>255.255.255.254\<close> the loop runs 62 times.\<close>

theorem C10_counterexample:
  "\<exists>cidrs. Range2CIDRs (Some [0, 0, 0, 1]) (Some [255, 255, 255, 254]) = Some (cidrs, None) \<and>
     length cidrs = 62 \<and> \<not> length cidrs \<le> 32"
proof -
  have "map_option (\<lambda>(c, e). (length c, e))
          (Range2CIDRs (Some [0, 0, 0, 1]) (Some [255, 255, 255, 254])) = Some (62, None)"
    by code_simp
  then show ?thesis by (auto simp: map_option_case split: option.splits)
qed

text \<open>C10, as the code has it. For every valid range of width \<open>w\<close> (32 or 128)
  \<open>Range2CIDRs\<close> returns - the model's
  loop is a total function and \<open>FillBytes\<close> does not panic - and the list it returns has at
  most \<open>2 * w - 2\<close> blocks, one loop iteration each.\<close>

theorem C10_block_count:
  assumes "standardizeIP a = Some a'" "standardizeIP b = Some b'"
    and "length a' = length b'" "SetBytes a' \<le> SetBytes b'"
  shows "\<exists>cidrs. Range2CIDRs (Some a) (Some b) = Some (cidrs, None) \<and>
           length cidrs \<le> 2 * (8 * length a') - 2"
proof -
  define n where "n = length a'"
  have n: "n = 4 \<or> n = 16" using standardizeIP_length [OF assms(1)] by (simp add: n_def)
  have s0: "0 \<le> SetBytes a'" using SetBytes_bounds [of a'] by simp
  have "SetBytes b' < 256 ^ n" using SetBytes_bounds [of b'] assms(3) by (simp add: n_def)
  then have e1: "SetBytes b' < 2 ^ (n * 8)" by (simp only: pow256)
  have "2 \<le> n * 8" using n by auto
  from blocks_length_bound [OF s0 e1 this]
  have "length (blocks (n * 8) (SetBytes a') (SetBytes b')) \<le> 2 * (8 * n) - 2"
    by (simp add: mult.commute)
  then show ?thesis
    using Range2CIDRs_valid [OF assms] by (simp add: n_def)
qed

theorem C10_block_count_witness:
  "\<exists>cidrs. Range2CIDRs (Some [0, 0, 0, 1]) (Some [255, 255, 255, 254]) = Some (cidrs, None) \<and>
           length cidrs \<le> 2 * (8 * length [0 :: byte, 0, 0, 1]) - 2"
proof -
  have h1: "standardizeIP [0, 0, 0, 1] = Some [0, 0, 0, 1]" by code_simp
  have h2: "standardizeIP [255, 255, 255, 254] = Some [255, 255, 255, 254]" by code_simp
  have h3: "length [0, 0, 0, 1 :: byte] = length [255, 255, 255, 254 :: byte]" by simp
  have h4: "SetBytes [0, 0, 0, 1] \<le> SetBytes [255, 255, 255, 254]" by code_simp
  show ?thesis by (rule C10_block_count [OF h1 h2 h3 h4])
qed

end
